theory Spec2Isabelle
  imports Main
begin

section \<open>Server trace hooks: data model\<close>

text \<open>
  The package \<^verbatim>\<open>httptrace\<close> (file \<^verbatim>\<open>server.go\<close>) binds a \<^verbatim>\<open>*ServerTrace\<close> to a
  \<^verbatim>\<open>context.Context\<close> and composes it with the trace bound before. The composition walks
  the fields of the struct by reflection, so the only thing it knows of the struct is the
  \<^verbatim>\<open>reflect.Kind\<close> of each field. A struct type is modelled by the list of the kinds of its
  fields (\<^verbatim>\<open>NumField\<close> is its length), and the functions below take it as an argument.
\<close>

datatype kind = Func | Struct

type_synonym structType = "kind list"


text \<open>
  The sources declare \<^verbatim>\<open>ServerTrace\<close> twice. The declaration of \<^verbatim>\<open>server.go\<close> has no field.
  The other one has five fields, \<^verbatim>\<open>GotBadRequest (BadRequestInfo)\<close> to
  \<^verbatim>\<open>HandlerDone (HandlerDoneInfo)\<close>: the type of each is a parenthesised struct type, so
  each field is of kind \<open>Struct\<close>. These two are the struct types of the program.
\<close>

definition ServerTrace_server_go :: structType where
  "ServerTrace_server_go = []"

definition ServerTrace_five_fields :: structType where
  "ServerTrace_five_fields = [Struct, Struct, Struct, Struct, Struct]"

definition declared :: "structType \<Rightarrow> bool" where
  "declared st \<longleftrightarrow> st = ServerTrace_server_go \<or> st = ServerTrace_five_fields"

text \<open>
  A \<^verbatim>\<open>*ServerTrace\<close> is an address; \<^verbatim>\<open>nil\<close> is \<open>None\<close> of \<open>addr option\<close>.

  A function value is either a function the caller wrote, known by a name and otherwise
  opaque (calling it is an observable event), or a closure made by \<^verbatim>\<open>reflect.MakeFunc\<close> in
  \<^verbatim>\<open>compose\<close>. That closure captures \<^verbatim>\<open>tfCopy\<close>, a function value
  (\<^verbatim>\<open>reflect.ValueOf(tf.Interface())\<close> copies the value out of the field), and \<^verbatim>\<open>of\<close>, which
  is \<^verbatim>\<open>ov.Field(i)\<close>: an addressable \<^verbatim>\<open>reflect.Value\<close> that designates field \<open>i\<close> of the struct
  \<^verbatim>\<open>*old\<close>. \<^verbatim>\<open>of.Call\<close> loads the function stored in that field when the call is made.
\<close>

type_synonym addr = nat

datatype func = Callback nat | MakeFunc func addr nat

text \<open>
  A struct value maps a field index to the content of the field: for a field of kind
  \<open>Func\<close>, the function stored there (\<open>None\<close> is a nil function). The fields of the
  declared struct types are of kind \<open>Struct\<close> and their types are empty structs; the
  entry of such a field stands for its only value and is never read or written. The heap
  maps every address to the struct it points to.
\<close>

type_synonym ServerTrace = "nat \<Rightarrow> func option"

type_synonym heap = "addr \<Rightarrow> ServerTrace"

subsection \<open>Contexts\<close>

text \<open>
  \<^verbatim>\<open>context.Context\<close> belongs to the standard library. The model keeps what the package
  uses: \<^verbatim>\<open>context.Background()\<close>, \<^verbatim>\<open>context.WithValue(parent, key, val)\<close> and the method
  \<^verbatim>\<open>Value(key)\<close>, which returns the value of the nearest node that holds the key and nil
  when there is none. A key is the package's own \<^verbatim>\<open>serverEventContextKey{}\<close> or a key of
  some other package; a value is a \<^verbatim>\<open>*ServerTrace\<close> or a value of some other type.
\<close>

datatype key = serverEventContextKey | otherKey nat

datatype val = TracePtr "addr option" | otherVal nat

datatype Context = Background | WithValue Context key val

fun Value :: "Context \<Rightarrow> key \<Rightarrow> val option" where
  "Value Background k = None"
| "Value (WithValue parent k' v) k = (if k' = k then Some v else Value parent k)"

text \<open>
  \<^verbatim>\<open>trace, _ := ctx.Value(serverEventContextKey{}).(*ServerTrace); return trace\<close>:
  the type assertion yields nil when the value is absent or of another type.
\<close>

definition ContextServerTrace :: "Context \<Rightarrow> addr option" where
  "ContextServerTrace ctx =
     (case Value ctx serverEventContextKey of
        Some (TracePtr trace) \<Rightarrow> trace
      | _ \<Rightarrow> None)"

text \<open>The values stored under the package's key along a chain, nearest first.\<close>

fun bound :: "Context \<Rightarrow> val list" where
  "bound Background = []"
| "bound (WithValue parent k v) =
     (if k = serverEventContextKey then v # bound parent else bound parent)"

section \<open>Composition\<close>

text \<open>
  The body of the loop of \<^verbatim>\<open>compose\<close> for field \<open>i\<close>, on the heap as it stands when the
  iteration starts (\<^verbatim>\<open>t\<close> and \<^verbatim>\<open>old\<close> may be the same address). The three \<^verbatim>\<open>continue\<close>
  branches come first, in the order of the source; the last branch stores the closure.
\<close>

definition compose_field :: "structType \<Rightarrow> heap \<Rightarrow> addr \<Rightarrow> addr \<Rightarrow> nat \<Rightarrow> heap" where
  "compose_field st h t old i =
     (if st ! i \<noteq> Func then h
      else case h old i of
        None \<Rightarrow> h
      | Some ofv \<Rightarrow>
          (case h t i of
             None \<Rightarrow> h(t := (h t)(i := Some ofv))
           | Some tfCopy \<Rightarrow> h(t := (h t)(i := Some (MakeFunc tfCopy old i)))))"

text \<open>\<^verbatim>\<open>for i := 0; i < structType.NumField(); i++\<close>\<close>

function compose_loop :: "structType \<Rightarrow> heap \<Rightarrow> addr \<Rightarrow> addr \<Rightarrow> nat \<Rightarrow> heap" where
  "compose_loop st h t old i =
     (if i < length st then compose_loop st (compose_field st h t old i) t old (Suc i)
      else h)"
  by pat_completeness auto
termination
  by (relation "measure (\<lambda>(st, h, t, old, i). length st - i)") auto

text \<open>
  The value that field \<open>i\<close> of \<^verbatim>\<open>*t\<close> holds after the iteration of the loop for \<open>i\<close>.
\<close>

definition composed :: "structType \<Rightarrow> heap \<Rightarrow> addr \<Rightarrow> addr \<Rightarrow> nat \<Rightarrow> func option" where
  "composed st h t old i = compose_field st h t old i t i"


text \<open>The method \<^verbatim>\<open>(t *ServerTrace) compose(old *ServerTrace)\<close>.\<close>

definition compose :: "structType \<Rightarrow> heap \<Rightarrow> addr \<Rightarrow> addr option \<Rightarrow> heap" where
  "compose st h t old =
     (case old of
        None \<Rightarrow> h
      | Some ov \<Rightarrow> compose_loop st h t ov 0)"

section \<open>Binding\<close>

datatype panic = NilTrace

definition WithServerTrace ::
  "structType \<Rightarrow> heap \<Rightarrow> Context \<Rightarrow> addr option \<Rightarrow> panic + heap \<times> Context" where
  "WithServerTrace st h ctx trace =
     (case trace of
        None \<Rightarrow> Inl NilTrace
      | Some t \<Rightarrow>
          (let old = ContextServerTrace ctx;
               h' = compose st h t old
           in Inr (h', WithValue ctx serverEventContextKey (TracePtr (Some t)))))"

text \<open>A chain of binds: the traces of the list are bound one after the other, first to last.\<close>

fun bind_chain ::
  "structType \<Rightarrow> heap \<Rightarrow> Context \<Rightarrow> addr list \<Rightarrow> panic + heap \<times> Context" where
  "bind_chain st h ctx [] = Inr (h, ctx)"
| "bind_chain st h ctx (t # ts) =
     (case WithServerTrace st h ctx (Some t) of
        Inl e \<Rightarrow> Inl e
      | Inr (h', ctx') \<Rightarrow> bind_chain st h' ctx' ts)"


section \<open>Calling a hook\<close>

text \<open>
  Calling a function value with an argument, on a heap. The result carries the events
  seen so far: \<open>(c, args)\<close> is one call of the caller's function \<open>c\<close> with \<open>args\<close>. The first
  argument bounds the depth of the call stack; a call that needs a deeper stack ends in
  \<open>StackOverflow\<close>, as a Go program does. The closure of \<^verbatim>\<open>compose\<close> runs
  \<^verbatim>\<open>tfCopy.Call(args)\<close>, then \<^verbatim>\<open>of.Call(args)\<close>, which panics when the field holds nil.
\<close>

datatype 'e outcome = Returns "'e list" | Panics "'e list" | StackOverflow "'e list"

fun call :: "nat \<Rightarrow> heap \<Rightarrow> func \<Rightarrow> 'a \<Rightarrow> (nat \<times> 'a) list \<Rightarrow> (nat \<times> 'a) outcome" where
  "call 0 h f args evs = StackOverflow evs"
| "call (Suc d) h (Callback c) args evs = Returns (evs @ [(c, args)])"
| "call (Suc d) h (MakeFunc tfCopy old i) args evs =
     (case call d h tfCopy args evs of
        Returns evs' \<Rightarrow>
          (case h old i of
             None \<Rightarrow> Panics evs'
           | Some fn \<Rightarrow> call d h fn args evs')
      | Panics evs' \<Rightarrow> Panics evs'
      | StackOverflow evs' \<Rightarrow> StackOverflow evs')"

text \<open>
  A slot as a caller leaves it in a hook set of their own making: nil, or one of the
  caller's functions.
\<close>

fun caller_hook :: "func option \<Rightarrow> bool" where
  "caller_hook None = True"
| "caller_hook (Some (Callback c)) = True"
| "caller_hook (Some (MakeFunc f a i)) = False"

text \<open>The event a slot of a caller's hook set produces when it is called.\<close>

fun hook_events :: "func option \<Rightarrow> 'a \<Rightarrow> (nat \<times> 'a) list" where
  "hook_events (Some (Callback c)) args = [(c, args)]"
| "hook_events _ args = []"

text \<open>
  The events of slot \<open>i\<close> of the hook sets \<open>ts\<close> (listed in the order they were bound),
  most recently bound first.
\<close>

definition chain_events :: "heap \<Rightarrow> addr list \<Rightarrow> nat \<Rightarrow> 'a \<Rightarrow> (nat \<times> 'a) list" where
  "chain_events h ts i args = concat (map (\<lambda>t. hook_events (h t i) args) (rev ts))"

text \<open>
  A slot \<open>fo\<close> runs the events \<open>evs\<close>: a nil slot stands for no event; a function returns,
  having added exactly \<open>evs\<close>, whenever the stack allows more than \<open>n\<close> frames, on every heap
  that agrees with \<open>h\<close> on the hook sets of \<open>S\<close>.
\<close>

definition slot_runs ::
  "addr set \<Rightarrow> heap \<Rightarrow> nat \<Rightarrow> func option \<Rightarrow> (nat \<times> 'a) list \<Rightarrow> 'a \<Rightarrow> bool" where
  "slot_runs S h n fo evs args =
     (case fo of
        None \<Rightarrow> evs = []
      | Some f \<Rightarrow>
          (\<forall>h' d log. (\<forall>a\<in>S. \<forall>j. h' a j = h a j) \<longrightarrow> n < d \<longrightarrow>
             call d h' f args log = Returns (log @ evs)))"


section \<open>Example states\<close>

text \<open>The heap in which every field of every struct holds its zero value.\<close>

definition zero_heap :: heap where
  "zero_heap = (\<lambda>a i. None)"

text \<open>The context \<^verbatim>\<open>WithServerTrace(context.Background(), t)\<close> returns.\<close>

definition bound_to :: "addr \<Rightarrow> Context" where
  "bound_to t = WithValue Background serverEventContextKey (TracePtr (Some t))"

section \<open>The loop of compose, field by field\<close>

declare compose_loop.simps [simp del]

lemma composed_eq:
  "composed st h t old i =
     (if st ! i \<noteq> Func then h t i
      else case h old i of
        None \<Rightarrow> h t i
      | Some ofv \<Rightarrow> (case h t i of None \<Rightarrow> Some ofv | Some tfCopy \<Rightarrow> Some (MakeFunc tfCopy old i)))"
  by (auto simp: composed_def compose_field_def split: option.splits)

lemma compose_field_apply:
  "compose_field st h t old i a j =
     (if a = t \<and> j = i then composed st h t old i else h a j)"
  by (auto simp: composed_def compose_field_def split: option.splits)

lemma composed_cong:
  "h' t j = h t j \<Longrightarrow> h' old j = h old j \<Longrightarrow> composed st h' t old j = composed st h t old j"
  by (simp add: composed_eq split: option.splits)

lemma compose_loop_apply:
  "compose_loop st h t old i a j =
     (if a = t \<and> i \<le> j \<and> j < length st then composed st h t old j else h a j)"
proof (induction st h t old i rule: compose_loop.induct)
  case (1 st h t old i)
  show ?case
  proof (cases "i < length st")
    case False
    then show ?thesis by (auto simp: compose_loop.simps [of st h t old i])
  next
    case True
    let ?h1 = "compose_field st h t old i"
    have step: "compose_loop st h t old i a j = compose_loop st ?h1 t old (Suc i) a j"
      using True by (simp add: compose_loop.simps [of st h t old i])
    have ih: "compose_loop st ?h1 t old (Suc i) a j =
        (if a = t \<and> Suc i \<le> j \<and> j < length st then composed st ?h1 t old j else ?h1 a j)"
      using "1.IH" [OF True] .
    have later: "composed st ?h1 t old j = composed st h t old j" if "Suc i \<le> j"
    proof -
      from that have ne: "j \<noteq> i" by simp
      show ?thesis
        by (rule composed_cong) (simp_all add: compose_field_apply ne)
    qed
    show ?thesis
    proof (cases "a = t \<and> Suc i \<le> j \<and> j < length st")
      case in_range: True
      then show ?thesis
        unfolding step ih using later by simp
    next
      case out: False
      then show ?thesis
        unfolding step ih using True by (auto simp: compose_field_apply)
    qed
  qed
qed

lemma WithServerTrace_Some:
  "WithServerTrace st h ctx (Some t) =
     Inr (compose st h t (ContextServerTrace ctx),
          WithValue ctx serverEventContextKey (TracePtr (Some t)))"
  by (simp add: WithServerTrace_def)

lemma ContextServerTrace_WithValue:
  "ContextServerTrace (WithValue ctx serverEventContextKey (TracePtr p)) = p"
  by (simp add: ContextServerTrace_def)

lemma compose_apply:
  "compose st h t old a j =
     (case old of
        None \<Rightarrow> h a j
      | Some ov \<Rightarrow> if a = t \<and> j < length st then composed st h t ov j else h a j)"
  by (simp add: compose_def compose_loop_apply split: option.splits)

lemma bind_chain_snoc:
  "bind_chain st h ctx (ts @ [t]) =
     (case bind_chain st h ctx ts of
        Inl e \<Rightarrow> Inl e
      | Inr (h', ctx') \<Rightarrow> WithServerTrace st h' ctx' (Some t))"
  by (induction ts arbitrary: h ctx) (auto simp: WithServerTrace_Some split: sum.splits)

lemma bind_chain_returns: "\<exists>h' ctx'. bind_chain st h ctx ts = Inr (h', ctx')"
  by (induction ts arbitrary: h ctx) (auto simp: WithServerTrace_Some)



lemma bind_chain_append:
  "bind_chain st h ctx (ts @ us) =
     (case bind_chain st h ctx ts of
        Inl e \<Rightarrow> Inl e
      | Inr (h', ctx') \<Rightarrow> bind_chain st h' ctx' us)"
  by (induction ts arbitrary: h ctx) (auto simp: WithServerTrace_Some split: sum.splits)



section \<open>The declared struct types\<close>

text \<open>
  Neither declaration of \<^verbatim>\<open>ServerTrace\<close> has a field of kind \<open>Func\<close>. On such a struct type
  every iteration of the loop takes the first \<^verbatim>\<open>continue\<close>: \<^verbatim>\<open>compose\<close> returns the heap it
  was given, and so do \<^verbatim>\<open>WithServerTrace\<close> and every chain of binds.
\<close>

lemma declared_no_func: "declared st \<Longrightarrow> \<forall>k\<in>set st. k \<noteq> Func"
  by (auto simp: declared_def ServerTrace_server_go_def ServerTrace_five_fields_def)

lemma compose_without_func_fields:
  assumes "\<forall>k\<in>set st. k \<noteq> Func"
  shows "compose st h t old = h"
proof (intro ext)
  fix a j
  have "st ! j \<noteq> Func" if "j < length st"
    using assms that by (simp add: all_set_conv_all_nth)
  then show "compose st h t old a j = h a j"
    by (simp add: compose_apply composed_eq split: option.splits)
qed


lemma compose_declared: "declared st \<Longrightarrow> compose st h t old = h"
  by (simp add: compose_without_func_fields declared_no_func)



section \<open>The loop on function fields\<close>

text \<open>
  The second half of the loop body (\<^verbatim>\<open>of.IsNil\<close>, \<^verbatim>\<open>tf.IsNil\<close>, \<^verbatim>\<open>tf.Set\<close>, \<^verbatim>\<open>MakeFunc\<close>) is
  reached only for a field of kind \<open>Func\<close>, which no declared struct type has. The lemmas
  of this section say what it does on a struct type that has such a field: hook sets
  that are distinct objects are chained most recently bound first, and a hook set that
  is composed with itself, or with a hook set whose closure reads it, yields closures
  whose calls do not return.
\<close>

lemma slot_runs_SomeI:
  assumes "\<And>h' d log. (\<forall>a\<in>S. \<forall>j. h' a j = h a j) \<Longrightarrow> n < d \<Longrightarrow>
     call d h' f args log = Returns (log @ evs)"
  shows "slot_runs S h n (Some f) evs args"
  using assms by (simp add: slot_runs_def)

lemma slot_runs_SomeD:
  assumes "slot_runs S h n (Some f) evs args"
    and "\<forall>a\<in>S. \<forall>j. h' a j = h a j" and "n < d"
  shows "call d h' f args log = Returns (log @ evs)"
  using assms by (simp add: slot_runs_def)

lemma slot_runs_NoneD: "slot_runs S h n None evs args \<Longrightarrow> evs = []"
  by (simp add: slot_runs_def)

lemma call_Callback:
  "0 < d \<Longrightarrow> call d h (Callback c) args evs = Returns (evs @ [(c, args)])"
  by (cases d) simp_all

lemma chain_events_snoc:
  "chain_events h (ts @ [t]) i args = hook_events (h t i) args @ chain_events h ts i args"
  by (simp add: chain_events_def)

lemma chain_events_Nil: "chain_events h [] i args = []"
  by (simp add: chain_events_def)

lemma slot_runs_caller:
  assumes "caller_hook fo" and "0 < n"
  shows "slot_runs S h n fo (hook_events fo args) args"
proof (cases fo)
  case None
  then show ?thesis by (simp add: slot_runs_def)
next
  case (Some f)
  with assms(1) obtain c where f: "f = Callback c" by (cases f) simp_all
  show ?thesis
    using assms(2) by (simp add: slot_runs_def Some f call_Callback)
qed

lemma chain_invariant:
  assumes free: "ContextServerTrace ctx0 = None"
    and i: "i < length st" "st ! i = Func"
  shows "distinct ts \<Longrightarrow> \<forall>t\<in>set ts. caller_hook (h0 t i) \<Longrightarrow>
     bind_chain st h0 ctx0 ts = Inr (h, ctx) \<Longrightarrow>
     ContextServerTrace ctx = (if ts = [] then None else Some (last ts)) \<and>
     (\<forall>a j. a \<notin> set ts \<longrightarrow> h a j = h0 a j) \<and>
     (ts \<noteq> [] \<longrightarrow>
        slot_runs (set ts) h (length ts) (h (last ts) i) (chain_events h0 ts i args) args)"
proof (induction ts arbitrary: h ctx rule: rev_induct)
  case Nil
  then show ?case using free by simp
next
  case (snoc t ts)
  obtain h1 ctx1 where chain1: "bind_chain st h0 ctx0 ts = Inr (h1, ctx1)"
    using bind_chain_returns by blast
  from snoc.prems(1) have dist: "distinct ts" and fresh: "t \<notin> set ts" by simp_all
  from snoc.prems(2) have callers: "\<forall>t\<in>set ts. caller_hook (h0 t i)"
    and caller_t: "caller_hook (h0 t i)" by simp_all
  note ih = snoc.IH [OF dist callers chain1]
  from ih have look1: "ContextServerTrace ctx1 = (if ts = [] then None else Some (last ts))"
    and frame1: "\<And>a j. a \<notin> set ts \<Longrightarrow> h1 a j = h0 a j"
    and runs1: "ts \<noteq> [] \<Longrightarrow>
        slot_runs (set ts) h1 (length ts) (h1 (last ts) i) (chain_events h0 ts i args) args"
    by simp_all
  from snoc.prems(3) chain1
  have h: "h = compose st h1 t (ContextServerTrace ctx1)"
    and ctx: "ctx = WithValue ctx1 serverEventContextKey (TracePtr (Some t))"
    by (simp_all add: bind_chain_snoc WithServerTrace_Some)
  have look: "ContextServerTrace ctx = Some t"
    by (simp add: ctx ContextServerTrace_WithValue)
  have other: "h a j = h1 a j" if "a \<noteq> t" for a j
    using that by (simp add: h compose_apply split: option.splits)
  have frame: "h a j = h0 a j" if "a \<notin> set (ts @ [t])" for a j
    using that other [of a j] frame1 [of a j] by simp
  have t0: "h1 t i = h0 t i" using fresh by (rule frame1)
  have runs: "slot_runs (set (ts @ [t])) h (length (ts @ [t])) (h t i)
      (chain_events h0 (ts @ [t]) i args) args"
  proof (cases "ts = []")
    case True
    then have "h t i = h0 t i"
      using look1 t0 by (simp add: h compose_apply)
    then show ?thesis
      using True caller_t by (simp add: chain_events_def slot_runs_caller)
  next
    case False
    let ?old = "last ts"
    have old_in: "?old \<in> set ts" using False by simp
    then have old_ne: "?old \<noteq> t" using fresh by auto
    have slot: "h t i = composed st h1 t ?old i"
      using False look1 i by (simp add: h compose_apply)
    note r1 = runs1 [OF False]
    show ?thesis
    proof (cases "h1 ?old i")
      case None
      then have "chain_events h0 ts i args = []"
        using r1 by (simp add: slot_runs_NoneD)
      moreover have "h t i = h0 t i"
        using None i t0 by (simp add: slot composed_eq)
      ultimately show ?thesis
        using caller_t by (simp add: chain_events_snoc slot_runs_caller)
    next
      case (Some fo)
      have fo: "call d h' fo args log = Returns (log @ chain_events h0 ts i args)"
        if "\<forall>a\<in>set ts. \<forall>j. h' a j = h1 a j" and "length ts < d" for h' d log
        using r1 that unfolding Some by (rule slot_runs_SomeD)
      have agree: "\<forall>a\<in>set ts. \<forall>j. h' a j = h1 a j"
        if "\<forall>a\<in>set (ts @ [t]). \<forall>j. h' a j = h a j" for h'
      proof (intro ballI allI)
        fix a j assume a: "a \<in> set ts"
        then have "a \<noteq> t" using fresh by auto
        then show "h' a j = h1 a j" using that a other [of a j] by simp
      qed
      show ?thesis
      proof (cases "h0 t i")
        case None
        then have new: "h t i = Some fo"
          using Some i t0 by (simp add: slot composed_eq)
        have "call d h' fo args log = Returns (log @ chain_events h0 ts i args)"
          if ag: "\<forall>a\<in>set (ts @ [t]). \<forall>j. h' a j = h a j" and d: "length (ts @ [t]) < d"
          for h' d log
        proof (rule fo [OF agree [OF ag]])
          show "length ts < d" using d by simp
        qed
        then have "slot_runs (set (ts @ [t])) h (length (ts @ [t])) (Some fo)
            (chain_events h0 ts i args) args"
          by (rule slot_runs_SomeI)
        then show ?thesis
          by (simp only: new chain_events_snoc None hook_events.simps append_Nil)
      next
        case (Some f)
        with caller_t obtain c where f: "f = Callback c" by (cases f) simp_all
        have new: "h t i = Some (MakeFunc (Callback c) ?old i)"
          using \<open>h1 ?old i = Some fo\<close> Some f i t0 by (simp add: slot composed_eq)
        have "call d h' (MakeFunc (Callback c) ?old i) args log =
            Returns (log @ (c, args) # chain_events h0 ts i args)"
          if ag: "\<forall>a\<in>set (ts @ [t]). \<forall>j. h' a j = h a j" and d: "length (ts @ [t]) < d"
          for h' d log
        proof -
          from d obtain d' where d': "d = Suc d'" and deep: "length ts < d'"
            by (cases d) simp_all
          have pos: "0 < d'" using deep by simp
          have "h' ?old i = h ?old i" using ag old_in by simp
          also have "\<dots> = Some fo" using other [OF old_ne] \<open>h1 ?old i = Some fo\<close> by simp
          finally have rd: "h' ?old i = Some fo" .
          show ?thesis
            by (simp add: d' call_Callback [OF pos] rd fo [OF agree [OF ag] deep])
        qed
        then have "slot_runs (set (ts @ [t])) h (length (ts @ [t]))
            (Some (MakeFunc (Callback c) ?old i)) ((c, args) # chain_events h0 ts i args) args"
          by (rule slot_runs_SomeI)
        then show ?thesis
          by (simp only: new chain_events_snoc Some f hook_events.simps append_Cons append_Nil)
      qed
    qed
  qed
  show ?case
    using look frame runs by simp
qed


lemma chain_slot:
  assumes "ContextServerTrace ctx0 = None"
    and "i < length st" and "st ! i = Func"
    and "distinct ts" and "ts \<noteq> []"
    and "\<forall>t\<in>set ts. caller_hook (h0 t i)"
    and "bind_chain st h0 ctx0 ts = Inr (h, ctx)"
  shows "ContextServerTrace ctx = Some (last ts)"
    and "slot_runs (set ts) h (length ts) (h (last ts) i) (chain_events h0 ts i args) args"
  using chain_invariant [OF assms(1,2,3,4,6,7), of args] assms(5) by simp_all

lemma slot_runs_here:
  assumes "slot_runs S h n (Some f) evs args" and "n < d"
  shows "call d h f args [] = Returns evs"
  using slot_runs_SomeD [OF assms(1) _ assms(2), of h "[]"] by simp

text \<open>
  A closure whose old field is the slot it is stored in calls itself: at every depth the
  call ends in a stack overflow, after one event for each frame but the last.
\<close>

lemma self_wrapper_overflows:
  assumes "h a i = Some (MakeFunc (Callback c) a i)"
  shows "call d h (MakeFunc (Callback c) a i) args evs =
     StackOverflow (evs @ replicate (d - 1) (c, args))"
proof (induction d arbitrary: evs)
  case 0
  show ?case by simp
next
  case (Suc d)
  show ?case
  proof (cases d)
    case 0
    then show ?thesis by simp
  next
    case (Suc n)
    have "call (Suc n) h (MakeFunc (Callback c) a i) args (evs @ [(c, args)]) =
        StackOverflow ((evs @ [(c, args)]) @ replicate n (c, args))"
      using Suc.IH [of "evs @ [(c, args)]"] Suc by simp
    then show ?thesis
      using assms Suc by (simp add: replicate_app_Cons_same)
  qed
qed

text \<open>
  Two closures that read each other's slot (the old set of each is the other): a call of
  either one never returns, whatever the depth the stack allows.
\<close>

lemma mutual_wrappers_overflow:
  assumes "h A i = Some (MakeFunc (Callback a) B i)"
    and "h B i = Some (MakeFunc (Callback b) A i)"
  shows "(\<exists>evs'. call d h (MakeFunc (Callback a) B i) args evs = StackOverflow evs') \<and>
     (\<exists>evs'. call d h (MakeFunc (Callback b) A i) args evs = StackOverflow evs')"
proof (induction d arbitrary: evs)
  case 0
  show ?case by simp
next
  case (Suc d)
  show ?case
  proof (cases d)
    case 0
    then show ?thesis by simp
  next
    case (Suc n)
    from Suc.IH [of "evs @ [(a, args)]"] Suc.IH [of "evs @ [(b, args)]"] assms Suc
    show ?thesis by auto
  qed
qed


section \<open>The claims\<close>

subsection \<open>C2\<close>



subsection \<open>C3\<close>



subsection \<open>C5\<close>

text \<open>
  Claim C5 (nil hook set). \<open>WithServerTrace\<close> with a nil trace panics (\<open>nil trace\<close>) and
  returns no context; with a trace that is not nil it returns a heap and a context.
\<close>

theorem C5_nil_trace_panics:
  "WithServerTrace st h ctx None = Inl NilTrace \<and>
   (\<exists>h' ctx'. WithServerTrace st h ctx (Some t) = Inr (h', ctx'))"
proof
  show "WithServerTrace st h ctx None = Inl NilTrace"
    by (simp add: WithServerTrace_def)
  show "\<exists>h' ctx'. WithServerTrace st h ctx (Some t) = Inr (h', ctx')"
    by (simp add: WithServerTrace_Some)
qed

theorem C5_witness:
  "WithServerTrace ServerTrace_five_fields zero_heap (bound_to 11) None = Inl NilTrace \<and>
   (\<exists>h' ctx'. WithServerTrace ServerTrace_five_fields zero_heap (bound_to 11) (Some 12) =
      Inr (h', ctx'))"
  using C5_nil_trace_panics [of ServerTrace_five_fields zero_heap "bound_to 11" 12] .

subsection \<open>C6\<close>

text \<open>
  Claim C6 (identity on first bind). When lookup on \<open>ctx\<close> yields nothing, binding \<open>H\<close> leaves
  the heap as it is, so every slot of \<open>H\<close> holds what its caller stored, and lookup on the
  new context yields \<open>H\<close>.
\<close>

theorem C6_identity_on_first_bind:
  assumes "ContextServerTrace ctx = None"
  shows "\<exists>ctx'. WithServerTrace st h ctx (Some t) = Inr (h, ctx') \<and>
     ContextServerTrace ctx' = Some t"
proof -
  have "compose st h t (ContextServerTrace ctx) = h"
    using assms by (simp add: compose_def)
  then have "WithServerTrace st h ctx (Some t) =
      Inr (h, WithValue ctx serverEventContextKey (TracePtr (Some t)))"
    by (simp add: WithServerTrace_Some)
  then show ?thesis
    by (simp add: ContextServerTrace_WithValue)
qed

theorem C6_witness:
  "ContextServerTrace (WithValue Background (otherKey 4) (otherVal 5)) = None \<and>
   (\<exists>ctx'. WithServerTrace ServerTrace_five_fields zero_heap
        (WithValue Background (otherKey 4) (otherVal 5)) (Some 11) = Inr (zero_heap, ctx') \<and>
      ContextServerTrace ctx' = Some 11)"
proof -
  have 1: "ContextServerTrace (WithValue Background (otherKey 4) (otherVal 5)) = None"
    by (simp add: ContextServerTrace_def)
  from C6_identity_on_first_bind [OF 1, of ServerTrace_five_fields zero_heap 11] 1
  show ?thesis by blast
qed

subsection \<open>C8\<close>

text \<open>
  Claim C8 (lookup). \<open>ContextServerTrace\<close> takes the context alone and returns a pointer: it
  has no heap and no context to change. It returns the pointer stored nearest under the
  package's key; when nothing is stored under that key (as in \<open>Background\<close>) it returns
  nil, not a hook set.
\<close>

theorem C8_lookup_reads_nearest_binding:
  "ContextServerTrace Background = None \<and>
   ContextServerTrace ctx =
     (case bound ctx of
        [] \<Rightarrow> None
      | TracePtr trace # earlier \<Rightarrow> trace
      | otherVal v # earlier \<Rightarrow> None)"
proof
  show "ContextServerTrace Background = None"
    by (simp add: ContextServerTrace_def)
  have "Value ctx serverEventContextKey = (case bound ctx of [] \<Rightarrow> None | v # earlier \<Rightarrow> Some v)"
    by (induction ctx) simp_all
  then show "ContextServerTrace ctx =
     (case bound ctx of
        [] \<Rightarrow> None
      | TracePtr trace # earlier \<Rightarrow> trace
      | otherVal v # earlier \<Rightarrow> None)"
    by (simp add: ContextServerTrace_def split: list.splits val.splits)
qed

theorem C8_witness:
  "ContextServerTrace (WithValue Background (otherKey 4) (otherVal 5)) = None \<and>
   ContextServerTrace (WithValue (bound_to 11) (otherKey 4) (otherVal 5)) = Some 11"
  using C8_lookup_reads_nearest_binding [of "WithValue Background (otherKey 4) (otherVal 5)"]
    C8_lookup_reads_nearest_binding [of "WithValue (bound_to 11) (otherKey 4) (otherVal 5)"]
  by (simp add: bound_to_def)

subsection \<open>C9\<close>

text \<open>
  Claim C9 (the stored hook set is the caller's object). For every context and every
  trace \<open>t\<close> that is not nil, lookup on the context \<open>WithServerTrace\<close> returns yields the
  pointer \<open>t\<close> itself.
\<close>

theorem C9_lookup_returns_the_callers_pointer:
  "\<exists>h' ctx'. WithServerTrace st h ctx (Some t) = Inr (h', ctx') \<and>
     ContextServerTrace ctx' = Some t"
proof -
  have "WithServerTrace st h ctx (Some t) =
      Inr (compose st h t (ContextServerTrace ctx),
           WithValue ctx serverEventContextKey (TracePtr (Some t)))"
    by (rule WithServerTrace_Some)
  moreover have "ContextServerTrace (WithValue ctx serverEventContextKey (TracePtr (Some t))) =
      Some t"
    by (rule ContextServerTrace_WithValue)
  ultimately show ?thesis by blast
qed

theorem C9_witness:
  "\<exists>h' ctx'. WithServerTrace ServerTrace_five_fields zero_heap (bound_to 11) (Some 12) =
      Inr (h', ctx') \<and>
     ContextServerTrace ctx' = Some 12"
  using C9_lookup_returns_the_callers_pointer
    [of ServerTrace_five_fields zero_heap "bound_to 11" 12] .

subsection \<open>C10\<close>

text \<open>
  Claim C10 (frame of a bind). For every struct type, \<open>compose\<close> writes to the slots of
  the hook set \<open>t\<close> that is bound and to nothing else. For each declared struct type and
  every context that carries a hook set \<open>old\<close>, every slot of \<open>old\<close> is unchanged by the
  bind, also when the hook set bound is \<open>old\<close> itself.
\<close>

theorem C10_bind_leaves_the_bound_set:
  assumes "ContextServerTrace ctx = Some old"
  shows "\<exists>h' ctx'. WithServerTrace st h ctx (Some t) = Inr (h', ctx') \<and>
     (\<forall>a. a \<noteq> t \<longrightarrow> h' a = h a) \<and> (declared st \<longrightarrow> h' old = h old)"
proof -
  let ?h' = "compose st h t (ContextServerTrace ctx)"
  have frame: "?h' a = h a" if "a \<noteq> t" for a
  proof
    fix j show "?h' a j = h a j"
      using that by (simp add: compose_apply split: option.splits)
  qed
  have same: "?h' old = h old" if "declared st"
    using that by (simp add: compose_declared)
  have "WithServerTrace st h ctx (Some t) =
      Inr (?h', WithValue ctx serverEventContextKey (TracePtr (Some t)))"
    by (rule WithServerTrace_Some)
  then show ?thesis using frame same by blast
qed

theorem C10_witness:
  "declared ServerTrace_five_fields \<and> ContextServerTrace (bound_to 11) = Some 11 \<and>
   (\<exists>h' ctx'. WithServerTrace ServerTrace_five_fields zero_heap (bound_to 11) (Some 11) =
        Inr (h', ctx') \<and>
      h' 11 = zero_heap 11 \<and> h' 12 = zero_heap 12)"
proof -
  have 1: "declared ServerTrace_five_fields" by (simp add: declared_def)
  have 2: "ContextServerTrace (bound_to 11) = Some 11"
    by (simp add: bound_to_def ContextServerTrace_def)
  from C10_bind_leaves_the_bound_set [OF 2, of ServerTrace_five_fields zero_heap 11] 1 2
  show ?thesis by auto
qed

end
